theory Spec2Isabelle
  imports Main
begin

section \<open>Capacities and slices\<close>

text \<open>
  \<^verbatim>\<open>BufferCap\<close> is an integer type of the package.  Only comparisons are made on
  it (\<^verbatim>\<open>size == None\<close>, \<^verbatim>\<open>size < 0\<close>, \<^verbatim>\<open>len(ch.buffer) >= int(ch.size)\<close>), so it
  is modelled as \<open>int\<close>.
\<close>

type_synonym BufferCap = int

text \<open>
  Modelled from the spec: the constant \<^verbatim>\<open>None\<close> of type \<^verbatim>\<open>BufferCap\<close> is declared in
  another file of the package; the spec calls it the zero/unbuffered capacity.
\<close>

definition None_cap :: BufferCap where
  "None_cap = 0"

text \<open>
  Modelled from the spec: the constant \<^verbatim>\<open>Infinity\<close> of type \<^verbatim>\<open>BufferCap\<close> is declared
  in another file of the package; the spec calls it the unbounded sentinel, a negative
  value set apart from the other (invalid) negative values.
\<close>

definition Infinity :: BufferCap where
  "Infinity = - 1"

text \<open>
  A Go slice \<^verbatim>\<open>[]interface{}\<close>: \<open>None\<close> is the \<^verbatim>\<open>nil\<close> slice, \<open>Some xs\<close> a slice
  with the elements \<open>xs\<close>.  \<^verbatim>\<open>len\<close> of the nil slice is 0, and \<^verbatim>\<open>append\<close> to the nil
  slice allocates a slice of one element.
\<close>

type_synonym 'a slice = "'a list option"

definition len :: "'a slice \<Rightarrow> nat" where
  "len b = (case b of None \<Rightarrow> 0 | Some xs \<Rightarrow> length xs)"

definition append_slice :: "'a slice \<Rightarrow> 'a \<Rightarrow> 'a slice" where
  "append_slice b e = (case b of None \<Rightarrow> Some [e] | Some xs \<Rightarrow> Some (xs @ [e]))"

definition elems :: "'a slice \<Rightarrow> 'a list" where
  "elems b = (case b of None \<Rightarrow> [] | Some xs \<Rightarrow> xs)"

section \<open>The channel and its goroutine\<close>

text \<open>
  The struct \<^verbatim>\<open>BatchingChannel\<close> together with the local variables of the goroutine
  \<^verbatim>\<open>batchingBuffer\<close>.  The three Go channels are unbuffered; of each one the state
  records whether it has been closed.  The locals \<^verbatim>\<open>input\<close>, \<^verbatim>\<open>output\<close> and
  \<^verbatim>\<open>nextInput\<close> are either \<^verbatim>\<open>nil\<close> (\<open>False\<close>) or the channel of the struct with
  that role (\<open>True\<close>); the local \<^verbatim>\<open>output\<close> is the field \<open>output_ch\<close>.
\<close>

record 'a BatchingChannel =
  buffer :: "'a slice"
  size_cap :: BufferCap
  input_closed :: bool
  output_closed :: bool
  length_closed :: bool
  input :: bool
  output_ch :: bool
  nextInput :: bool

text \<open>
  The state in which the goroutine reaches its loop for the first time: the struct as
  \<^verbatim>\<open>NewBatchingChannel\<close> fills it (three fresh channels, the size, the buffer left
  nil) and the locals after \<^verbatim>\<open>nextInput = ch.input; input = nextInput\<close>, with
  \<^verbatim>\<open>output\<close> still nil.
\<close>

definition started :: "BufferCap \<Rightarrow> 'a BatchingChannel" where
  "started sz =
     \<lparr> buffer = None, size_cap = sz,
       input_closed = False, output_closed = False, length_closed = False,
       input = True, output_ch = False, nextInput = True \<rparr>"

text \<open>
  \<^verbatim>\<open>NewBatchingChannel\<close>: the two panics are \<open>Inl\<close> with the panic's message; on
  success the goroutine is started.
\<close>

definition NewBatchingChannel :: "BufferCap \<Rightarrow> string + 'a BatchingChannel" where
  "NewBatchingChannel sz =
     (if sz = None_cap then
        Inl ''channels: BatchingChannel does not support unbuffered behaviour''
      else if sz < 0 \<and> sz \<noteq> Infinity then
        Inl ''channels: invalid negative size in NewBatchingChannel''
      else
        Inr (started sz))"

definition Cap :: "'a BatchingChannel \<Rightarrow> BufferCap" where
  "Cap ch = size_cap ch"

text \<open>
  One iteration of the loop of \<^verbatim>\<open>batchingBuffer\<close>.  The \<^verbatim>\<open>select\<close> commits to one
  communication: a value received from \<^verbatim>\<open>input\<close> (\<^verbatim>\<open>open\<close> true), the receive on
  the closed \<^verbatim>\<open>input\<close> (\<^verbatim>\<open>open\<close> false), the buffer sent on \<^verbatim>\<open>output\<close>, or the
  length sent on \<^verbatim>\<open>ch.length\<close>.
\<close>

datatype 'a comm = FromInput 'a | InputClosed | ToOutput | ToLength

definition loop_cond :: "'a BatchingChannel \<Rightarrow> bool" where
  "loop_cond s = (input s \<or> output_ch s)"

text \<open>
  Which cases of the \<^verbatim>\<open>select\<close> can be chosen: a nil channel never is; a sender
  can only hand a value over on a channel that is not closed; the receive on a closed
  channel is always ready.
\<close>

definition select_ready :: "'a BatchingChannel \<Rightarrow> 'a comm \<Rightarrow> bool" where
  "select_ready s c =
     (loop_cond s \<and>
      (case c of
         FromInput e \<Rightarrow> input s \<and> \<not> input_closed s
       | InputClosed \<Rightarrow> input s \<and> input_closed s
       | ToOutput \<Rightarrow> output_ch s
       | ToLength \<Rightarrow> True))"

definition select_case :: "'a BatchingChannel \<Rightarrow> 'a comm \<Rightarrow> 'a BatchingChannel" where
  "select_case s c =
     (case c of
        FromInput e \<Rightarrow> s\<lparr> buffer := append_slice (buffer s) e \<rparr>
      | InputClosed \<Rightarrow> s\<lparr> input := False, nextInput := False \<rparr>
      | ToOutput \<Rightarrow> s\<lparr> buffer := None \<rparr>
      | ToLength \<Rightarrow> s)"

text \<open>The \<^verbatim>\<open>if\<close> chain after the \<^verbatim>\<open>select\<close>, which sets \<^verbatim>\<open>input\<close> and \<^verbatim>\<open>output\<close> anew.\<close>

definition reevaluate :: "'a BatchingChannel \<Rightarrow> 'a BatchingChannel" where
  "reevaluate s =
     (if len (buffer s) = 0 then
        s\<lparr> input := nextInput s, output_ch := False \<rparr>
      else if size_cap s \<noteq> Infinity \<and> int (len (buffer s)) \<ge> size_cap s then
        s\<lparr> input := False, output_ch := True \<rparr>
      else
        s\<lparr> input := nextInput s, output_ch := True \<rparr>)"

text \<open>The two \<^verbatim>\<open>close\<close> calls after the loop.\<close>

definition after_loop :: "'a BatchingChannel \<Rightarrow> 'a BatchingChannel" where
  "after_loop s = s\<lparr> output_closed := True, length_closed := True \<rparr>"

definition iteration :: "'a BatchingChannel \<Rightarrow> 'a comm \<Rightarrow> 'a BatchingChannel" where
  "iteration s c =
     (let s' = reevaluate (select_case s c)
      in if loop_cond s' then s' else after_loop s')"

section \<open>The callers\<close>

text \<open>
  What the other goroutines do with the channel, and what they get.  \<open>Submit v\<close> is
  \<^verbatim>\<open>ch.In() <- v\<close>, \<open>CloseCall\<close> is \<^verbatim>\<open>ch.Close()\<close>, \<open>Receive\<close> is \<^verbatim>\<open><-ch.Out()\<close>,
  \<open>LenCall\<close> is \<^verbatim>\<open>ch.Len()\<close>.  \<open>SeeClosed\<close> has no caller: it is the loop receiving
  from its closed input.
\<close>

datatype 'a event = Submit 'a | CloseCall | SeeClosed | Receive | LenCall

text \<open>
  \<open>Done\<close>: the operation completed.  \<open>Panicked m\<close>: the calling goroutine panics
  with the runtime's message \<open>m\<close>.  \<open>Blocks\<close>: the loop does not offer the
  communication in this state, the caller stays blocked and nothing changes.
  \<open>Batch b\<close>: the value received from \<^verbatim>\<open>Out()\<close>.  \<open>EndOfStream\<close>: the receive on the
  closed output.  \<open>Length n\<close>: the value \<^verbatim>\<open>Len()\<close> returns.
\<close>

datatype 'a outcome =
  Done | Panicked string | Blocks | Batch "'a slice" | EndOfStream | Length int

text \<open>
  Go's channel rules: a send on a closed channel and the close of a closed channel
  panic; a receive on a closed channel returns the zero value at once; a send or a
  receive on an open unbuffered channel completes when the other side takes part.
\<close>

fun step :: "'a BatchingChannel \<Rightarrow> 'a event \<Rightarrow> 'a outcome \<times> 'a BatchingChannel" where
  "step s (Submit v) =
     (if input_closed s then (Panicked ''send on closed channel'', s)
      else if select_ready s (FromInput v) then (Done, iteration s (FromInput v))
      else (Blocks, s))"
| "step s CloseCall =
     (if input_closed s then (Panicked ''close of closed channel'', s)
      else (Done, s\<lparr> input_closed := True \<rparr>))"
| "step s SeeClosed =
     (if select_ready s InputClosed then (Done, iteration s InputClosed)
      else (Blocks, s))"
| "step s Receive =
     (if output_closed s then (EndOfStream, s)
      else if select_ready s ToOutput then (Batch (buffer s), iteration s ToOutput)
      else (Blocks, s))"
| "step s LenCall =
     (if length_closed s then (Length 0, s)
      else if select_ready s ToLength then (Length (int (len (buffer s))), iteration s ToLength)
      else (Blocks, s))"

text \<open>An interleaving is a list of events; \<open>run\<close> gives the state after it, \<open>trace\<close>
  each event with its outcome.\<close>

fun run :: "'a BatchingChannel \<Rightarrow> 'a event list \<Rightarrow> 'a BatchingChannel" where
  "run s [] = s"
| "run s (e # es) = run (snd (step s e)) es"

fun trace :: "'a BatchingChannel \<Rightarrow> 'a event list \<Rightarrow> ('a event \<times> 'a outcome) list" where
  "trace s [] = []"
| "trace s (e # es) = (e, fst (step s e)) # trace (snd (step s e)) es"

text \<open>The batches delivered and the values accepted in a trace, in order.\<close>

fun delivered :: "('a event \<times> 'a outcome) list \<Rightarrow> 'a slice list" where
  "delivered [] = []"
| "delivered ((e, Batch b) # tr) = b # delivered tr"
| "delivered (p # tr) = delivered tr"

fun accepted :: "('a event \<times> 'a outcome) list \<Rightarrow> 'a list" where
  "accepted [] = []"
| "accepted ((Submit v, Done) # tr) = v # accepted tr"
| "accepted (p # tr) = accepted tr"

text \<open>The values of the \<open>Submit\<close> events of an interleaving.\<close>

fun writes :: "'a event list \<Rightarrow> 'a list" where
  "writes [] = []"
| "writes (Submit v # es) = v # writes es"
| "writes (e # es) = writes es"

text \<open>
  The values accepted in a trace since the last batch was handed to a reader (since the
  start, with \<open>acc\<close> already pending, when there was none).
\<close>

fun pending :: "'a list \<Rightarrow> ('a event \<times> 'a outcome) list \<Rightarrow> 'a list" where
  "pending acc [] = acc"
| "pending acc ((Submit v, Done) # tr) = pending (acc @ [v]) tr"
| "pending acc ((e, Batch b) # tr) = pending [] tr"
| "pending acc (p # tr) = pending acc tr"

section \<open>The invariant of the loop\<close>

text \<open>
  What holds each time the loop is about to evaluate its condition, and after it has
  ended: the capacity is a valid one, a bounded buffer is within its capacity, the
  buffer is nil or has elements, \<^verbatim>\<open>input\<close> and \<^verbatim>\<open>output\<close> are as the \<^verbatim>\<open>if\<close> chain
  sets them, the output and length channels are closed exactly when the loop has
  ended, and \<^verbatim>\<open>nextInput\<close> is nil only once the input channel is closed.
\<close>

definition inv :: "'a BatchingChannel \<Rightarrow> bool" where
  "inv s =
     ((0 < size_cap s \<or> size_cap s = Infinity) \<and>
      (size_cap s \<noteq> Infinity \<longrightarrow> int (len (buffer s)) \<le> size_cap s) \<and>
      buffer s \<noteq> Some [] \<and>
      input s = (nextInput s \<and> \<not> (size_cap s \<noteq> Infinity \<and> size_cap s \<le> int (len (buffer s)))) \<and>
      output_ch s = (len (buffer s) \<noteq> 0) \<and>
      output_closed s = (\<not> loop_cond s) \<and>
      length_closed s = (\<not> loop_cond s) \<and>
      (\<not> nextInput s \<longrightarrow> input_closed s))"

text \<open>A bounded buffer at or over its capacity.\<close>

definition full :: "'a BatchingChannel \<Rightarrow> bool" where
  "full s = (size_cap s \<noteq> Infinity \<and> size_cap s \<le> int (len (buffer s)))"

text \<open>An unbounded channel whose input is open.\<close>

definition accepting :: "'a BatchingChannel \<Rightarrow> bool" where
  "accepting s = (inv s \<and> size_cap s = Infinity \<and> nextInput s \<and> \<not> input_closed s)"

section \<open>Basic facts\<close>

lemmas model_defs =
  started_def NewBatchingChannel_def None_cap_def Infinity_def len_def append_slice_def
  elems_def loop_cond_def select_ready_def select_case_def reevaluate_def after_loop_def
  iteration_def Let_def

lemma len_None [simp]: "len None = 0"
  by (simp add: len_def)

lemma elems_None [simp]: "elems None = []"
  by (simp add: elems_def)

lemma len_append_slice [simp]: "len (append_slice b e) = Suc (len b)"
  by (simp add: len_def append_slice_def split: option.splits)

lemma append_slice_not_empty [simp]: "append_slice b e \<noteq> Some []"
  by (simp add: append_slice_def split: option.splits)

lemma elems_append_slice [simp]: "elems (append_slice b e) = elems b @ [e]"
  by (simp add: elems_def append_slice_def split: option.splits)

lemma len_elems: "len b = length (elems b)"
  by (simp add: len_def elems_def split: option.splits)

lemma run_append: "run s (es1 @ es2) = run (run s es1) es2"
  by (induction es1 arbitrary: s) simp_all

lemma trace_append: "trace s (es1 @ es2) = trace s es1 @ trace (run s es1) es2"
  by (induction es1 arbitrary: s) simp_all

lemma delivered_append: "delivered (xs @ ys) = delivered xs @ delivered ys"
  by (induction xs rule: delivered.induct) simp_all

lemma accepted_append: "accepted (xs @ ys) = accepted xs @ accepted ys"
  by (induction xs rule: accepted.induct) simp_all

lemma delivered_Cons:
  "delivered ((e, x) # tr) = (case x of Batch b \<Rightarrow> b # delivered tr | _ \<Rightarrow> delivered tr)"
  by (cases x) simp_all

lemma size_cap_iteration [simp]: "size_cap (iteration s c) = size_cap s"
  by (cases c) (simp_all add: iteration_def reevaluate_def select_case_def after_loop_def Let_def)

lemma size_cap_step [simp]: "size_cap (snd (step s e)) = size_cap s"
  by (cases e) simp_all

lemma buffer_iteration:
  "buffer (iteration s c) =
     (case c of FromInput e \<Rightarrow> append_slice (buffer s) e | ToOutput \<Rightarrow> None | _ \<Rightarrow> buffer s)"
  by (cases c) (simp_all add: iteration_def reevaluate_def select_case_def after_loop_def Let_def)

lemma step_Batch:
  "fst (step s e) = Batch b \<Longrightarrow> e = Receive \<and> b = buffer s \<and> select_ready s ToOutput"
  by (cases e) (auto split: if_splits)

lemma writes_Cons: "writes (e # es) = [] \<Longrightarrow> (\<forall>v. e \<noteq> Submit v) \<and> writes es = []"
  by (cases e) simp_all

subsection \<open>The invariant holds at the start and after every event\<close>

lemma inv_New: "NewBatchingChannel sz = Inr s \<Longrightarrow> inv s"
  by (auto simp: NewBatchingChannel_def started_def inv_def loop_cond_def None_cap_def
        Infinity_def split: if_splits)

lemma size_cap_New: "NewBatchingChannel sz = Inr s \<Longrightarrow> size_cap s = sz"
  by (auto simp: NewBatchingChannel_def started_def split: if_splits)

lemma buffer_New: "NewBatchingChannel sz = Inr s \<Longrightarrow> buffer s = None"
  by (auto simp: NewBatchingChannel_def started_def split: if_splits)

lemma inv_step: "inv s \<Longrightarrow> inv (snd (step s e))"
  by (cases e)
     (auto simp: inv_def select_ready_def select_case_def reevaluate_def iteration_def
        after_loop_def loop_cond_def Let_def Infinity_def)

lemma inv_run: "inv s \<Longrightarrow> inv (run s es)"
  by (induction es arbitrary: s) (simp_all add: inv_step)

lemma iteration_ToLength: "inv s \<Longrightarrow> loop_cond s \<Longrightarrow> iteration s ToLength = s"
  by (auto simp: inv_def iteration_def select_case_def reevaluate_def loop_cond_def Let_def)

lemma step_LenCall: "inv s \<Longrightarrow> step s LenCall = (Length (int (len (buffer s))), s)"
  by (auto simp: iteration_ToLength select_ready_def) (auto simp: inv_def loop_cond_def)

lemma step_Receive_nonempty:
  "inv s \<Longrightarrow> len (buffer s) \<noteq> 0 \<Longrightarrow> fst (step s Receive) = Batch (buffer s)"
  by (auto simp: inv_def loop_cond_def select_ready_def)

lemma quiet_step:
  "inv s \<Longrightarrow> \<forall>v. e \<noteq> Submit v \<Longrightarrow> e \<noteq> Receive \<Longrightarrow>
   buffer (snd (step s e)) = buffer s \<and> (\<forall>b. fst (step s e) \<noteq> Batch b)"
  by (cases e) (auto simp: buffer_iteration)

section \<open>Construction\<close>

text \<open>
  C6: construction with the zero capacity panics, construction with a negative
  capacity other than the unbounded sentinel panics, and construction with a positive
  capacity or the unbounded sentinel succeeds with a channel whose \<open>Cap\<close> is the
  capacity given.
\<close>

theorem NewBatchingChannel_capacity:
  "(\<exists>m. (NewBatchingChannel None_cap :: string + 'a BatchingChannel) = Inl m) \<and>
   (\<forall>sz. sz < 0 \<and> sz \<noteq> Infinity \<longrightarrow>
      (\<exists>m. (NewBatchingChannel sz :: string + 'a BatchingChannel) = Inl m)) \<and>
   (\<forall>sz. 0 < sz \<or> sz = Infinity \<longrightarrow>
      (\<exists>ch. (NewBatchingChannel sz :: string + 'a BatchingChannel) = Inr ch \<and> Cap ch = sz))"
  by (auto simp: NewBatchingChannel_def started_def None_cap_def Infinity_def Cap_def)

theorem NewBatchingChannel_capacity_witness:
  "(\<exists>m. (NewBatchingChannel 0 :: string + nat BatchingChannel) = Inl m) \<and>
   (\<exists>m. (NewBatchingChannel (- 5) :: string + nat BatchingChannel) = Inl m) \<and>
   (\<exists>ch. (NewBatchingChannel 3 :: string + nat BatchingChannel) = Inr ch \<and> Cap ch = 3) \<and>
   (\<exists>ch. (NewBatchingChannel (- 1) :: string + nat BatchingChannel) = Inr ch \<and> Cap ch = - 1)"
proof -
  note t = NewBatchingChannel_capacity [where 'a = nat]
  have a: "\<exists>m. (NewBatchingChannel 0 :: string + nat BatchingChannel) = Inl m"
    using t by (simp add: None_cap_def)
  have b: "\<exists>m. (NewBatchingChannel (- 5) :: string + nat BatchingChannel) = Inl m"
    using t by (simp add: Infinity_def)
  have c: "\<exists>ch. (NewBatchingChannel 3 :: string + nat BatchingChannel) = Inr ch \<and> Cap ch = 3"
    using t by simp
  have d: "\<exists>ch. (NewBatchingChannel (- 1) :: string + nat BatchingChannel) = Inr ch \<and> Cap ch = - 1"
    using t by (simp add: Infinity_def)
  from a b c d show ?thesis by blast
qed

section \<open>Batches\<close>

subsection \<open>Size of a batch\<close>

lemma delivered_bounded:
  "inv s \<Longrightarrow> size_cap s \<noteq> Infinity \<Longrightarrow> b \<in> set (delivered (trace s es)) \<Longrightarrow>
   int (len b) \<le> size_cap s"
proof (induction es arbitrary: s)
  case Nil
  then show ?case by simp
next
  case (Cons e es)
  let ?t = "snd (step s e)"
  have it: "inv ?t" and ct: "size_cap ?t \<noteq> Infinity"
    using Cons.prems by (simp_all add: inv_step)
  show ?case
  proof (cases "b \<in> set (delivered (trace ?t es))")
    case True
    with Cons.IH [OF it ct] show ?thesis by simp
  next
    case False
    with Cons.prems(3) have "fst (step s e) = Batch b"
      by (auto simp: delivered_Cons split: outcome.splits)
    then have "b = buffer s" by (simp add: step_Batch)
    with Cons.prems(1,2) show ?thesis by (simp add: inv_def)
  qed
qed

text \<open>
  C2: on a channel of bounded capacity \<open>N\<close>, whatever the interleaving, no batch
  delivered has more than \<open>N\<close> elements, and the buffer never has more than \<open>N\<close>
  elements when the loop evaluates its condition again.
\<close>

theorem bounded_batches:
  assumes "NewBatchingChannel N = Inr s0" and "N \<noteq> Infinity"
  shows "(\<forall>b \<in> set (delivered (trace s0 es)). int (len b) \<le> N) \<and>
         int (len (buffer (run s0 es))) \<le> N"
proof -
  have i: "inv s0" and c: "size_cap s0 = N"
    using assms(1) by (simp_all add: inv_New size_cap_New)
  have "inv (run s0 es)" using i by (rule inv_run)
  moreover have "size_cap (run s0 es) = N"
    using c by (induction es arbitrary: s0) simp_all
  ultimately have "int (len (buffer (run s0 es))) \<le> N"
    using assms(2) by (simp add: inv_def)
  moreover have "\<forall>b \<in> set (delivered (trace s0 es)). int (len b) \<le> N"
    using delivered_bounded [OF i] c assms(2) by auto
  ultimately show ?thesis by simp
qed

theorem bounded_batches_witness:
  "(NewBatchingChannel 2 :: string + nat BatchingChannel) = Inr (started 2) \<and>
   (2 :: int) \<noteq> Infinity \<and>
   Some [1, 2] \<in> set (delivered (trace (started 2)
      [Submit (1 :: nat), Submit 2, Submit 3, Receive, Submit 3, Receive])) \<and>
   int (len (Some [1, 2 :: nat])) \<le> 2 \<and>
   int (len (buffer (run (started 2)
      [Submit (1 :: nat), Submit 2, Submit 3, Receive, Submit 3, Receive]))) \<le> 2"
proof -
  let ?es = "[Submit (1 :: nat), Submit 2, Submit 3, Receive, Submit 3, Receive]"
  have h1: "(NewBatchingChannel 2 :: string + nat BatchingChannel) = Inr (started 2)"
    by (simp add: NewBatchingChannel_def None_cap_def)
  have h2: "(2 :: int) \<noteq> Infinity"
    by (simp add: Infinity_def)
  have m: "Some [1, 2] \<in> set (delivered (trace (started 2) ?es))"
    by (simp add: model_defs)
  note t = bounded_batches [OF h1 h2, of ?es]
  from t m have "int (len (Some [1, 2 :: nat])) \<le> 2" by blast
  with t h1 h2 m show ?thesis by blast
qed

subsection \<open>No empty batch\<close>

lemma delivered_nonempty:
  "inv s \<Longrightarrow> b \<in> set (delivered (trace s es)) \<Longrightarrow> \<exists>xs. b = Some xs \<and> xs \<noteq> []"
proof (induction es arbitrary: s)
  case Nil
  then show ?case by simp
next
  case (Cons e es)
  let ?t = "snd (step s e)"
  have it: "inv ?t" using Cons.prems by (simp add: inv_step)
  show ?case
  proof (cases "b \<in> set (delivered (trace ?t es))")
    case True
    with Cons.IH [OF it] show ?thesis by simp
  next
    case False
    with Cons.prems(2) have "fst (step s e) = Batch b"
      by (auto simp: delivered_Cons split: outcome.splits)
    then have "b = buffer s" and "select_ready s ToOutput" by (simp_all add: step_Batch)
    with Cons.prems(1) have "b \<noteq> Some []" and "len b \<noteq> 0"
      by (simp_all add: inv_def select_ready_def)
    then show ?thesis by (cases b) simp_all
  qed
qed

text \<open>
  C3: every batch received from the output before the end of the stream is a slice
  that is not nil and not empty; the loop offers the buffer on the output only when
  the buffer holds at least one value.
\<close>

theorem batches_nonempty:
  assumes "NewBatchingChannel sz = Inr s0"
  shows "(\<forall>b \<in> set (delivered (trace s0 es)). \<exists>xs. b = Some xs \<and> xs \<noteq> []) \<and>
         (select_ready (run s0 es) ToOutput \<longrightarrow> 0 < len (buffer (run s0 es)))"
proof -
  have i: "inv s0" using assms by (rule inv_New)
  have "inv (run s0 es)" using i by (rule inv_run)
  then have "select_ready (run s0 es) ToOutput \<longrightarrow> 0 < len (buffer (run s0 es))"
    by (simp add: inv_def select_ready_def)
  moreover have "\<forall>b \<in> set (delivered (trace s0 es)). \<exists>xs. b = Some xs \<and> xs \<noteq> []"
    using delivered_nonempty [OF i] by blast
  ultimately show ?thesis by simp
qed

theorem batches_nonempty_witness:
  "(NewBatchingChannel 2 :: string + nat BatchingChannel) = Inr (started 2) \<and>
   Some [7] \<in> set (delivered (trace (started 2)
      [Receive, Submit (7 :: nat), Receive, Submit 8])) \<and>
   (\<exists>xs. Some [7 :: nat] = Some xs \<and> xs \<noteq> []) \<and>
   select_ready (run (started 2) [Receive, Submit (7 :: nat), Receive, Submit 8]) ToOutput \<and>
   0 < len (buffer (run (started 2) [Receive, Submit (7 :: nat), Receive, Submit 8]))"
proof -
  let ?es = "[Receive, Submit (7 :: nat), Receive, Submit 8]"
  have h1: "(NewBatchingChannel 2 :: string + nat BatchingChannel) = Inr (started 2)"
    by (simp add: NewBatchingChannel_def None_cap_def)
  have m: "Some [7] \<in> set (delivered (trace (started 2) ?es))"
    by (simp add: model_defs)
  have r: "select_ready (run (started 2) ?es) ToOutput"
    by (simp add: model_defs)
  note t = batches_nonempty [OF h1, of ?es]
  from t m have "\<exists>xs. Some [7 :: nat] = Some xs \<and> xs \<noteq> []" by blast
  moreover from t r have "0 < len (buffer (run (started 2) ?es))" by blast
  ultimately show ?thesis using h1 m r by blast
qed

subsection \<open>Order of the values\<close>

lemma batches_partition:
  "concat (map elems (delivered (trace s es))) @ elems (buffer (run s es)) =
   elems (buffer s) @ accepted (trace s es)"
proof (induction es arbitrary: s)
  case Nil
  then show ?case by simp
next
  case (Cons e es)
  let ?t = "snd (step s e)"
  note ih = Cons.IH [of ?t]
  show ?case
  proof (cases e)
    case (Submit v)
    then show ?thesis using ih
      by (cases "fst (step s e)") (auto simp: buffer_iteration split: if_splits)
  next
    case Receive
    then show ?thesis using ih
      by (cases "fst (step s e)") (auto simp: buffer_iteration split: if_splits)
  next
    case LenCall
    then show ?thesis using ih
      by (cases "fst (step s e)") (auto simp: buffer_iteration split: if_splits)
  next
    case CloseCall
    then show ?thesis using ih
      by (cases "fst (step s e)") (auto simp: buffer_iteration split: if_splits)
  next
    case SeeClosed
    then show ?thesis using ih
      by (cases "fst (step s e)") (auto simp: buffer_iteration split: if_splits)
  qed
qed

lemma buffer_pending:
  "elems (buffer (run s es)) = pending (elems (buffer s)) (trace s es)"
proof (induction es arbitrary: s)
  case Nil
  then show ?case by simp
next
  case (Cons e es)
  from Cons.IH [of "snd (step s e)"] show ?case
    by (cases e) (auto simp: buffer_iteration split: if_splits)
qed

text \<open>
  C4: in every interleaving the batches delivered, one after the other, followed by
  what is still in the buffer, are the accepted values in the order of their
  submission: each value is in one batch only and is delivered once.  A batch handed to
  a reader is, in order, the values accepted since the batch before it was handed off,
  and the buffer is empty after the hand-off.
\<close>

theorem batches_in_submission_order:
  assumes "NewBatchingChannel sz = Inr s0"
  shows "concat (map elems (delivered (trace s0 es))) @ elems (buffer (run s0 es)) =
           accepted (trace s0 es) \<and>
         (fst (step (run s0 es) Receive) = Batch b \<longrightarrow>
            elems b = pending [] (trace s0 es) \<and>
            buffer (snd (step (run s0 es) Receive)) = None)"
proof -
  have b0: "elems (buffer s0) = []"
    using assms by (simp add: buffer_New)
  have "concat (map elems (delivered (trace s0 es))) @ elems (buffer (run s0 es)) =
           accepted (trace s0 es)"
    using batches_partition [of s0 es] b0 by simp
  moreover have "elems (buffer (run s0 es)) = pending [] (trace s0 es)"
    using buffer_pending [of s0 es] b0 by simp
  moreover have "fst (step (run s0 es) Receive) = Batch b \<longrightarrow>
      b = buffer (run s0 es) \<and> buffer (snd (step (run s0 es) Receive)) = None"
    by (auto simp: buffer_iteration split: if_splits)
  ultimately show ?thesis by auto
qed

theorem batches_in_submission_order_witness:
  "(NewBatchingChannel 2 :: string + nat BatchingChannel) = Inr (started 2) \<and>
   delivered (trace (started 2) [Submit (5 :: nat), Submit 6, Receive, Submit 7, Submit 8]) =
     [Some [5, 6]] \<and>
   buffer (run (started 2) [Submit (5 :: nat), Submit 6, Receive, Submit 7, Submit 8]) =
     Some [7, 8] \<and>
   accepted (trace (started 2) [Submit (5 :: nat), Submit 6, Receive, Submit 7, Submit 8]) =
     [5, 6, 7, 8] \<and>
   fst (step (run (started 2) [Submit (5 :: nat), Submit 6, Receive, Submit 7, Submit 8]) Receive) =
     Batch (Some [7, 8]) \<and>
   pending [] (trace (started 2) [Submit (5 :: nat), Submit 6, Receive, Submit 7, Submit 8]) =
     [7, 8] \<and>
   buffer (snd (step (run (started 2)
     [Submit (5 :: nat), Submit 6, Receive, Submit 7, Submit 8]) Receive)) = None"
proof -
  let ?es = "[Submit (5 :: nat), Submit 6, Receive, Submit 7, Submit 8]"
  have h1: "(NewBatchingChannel 2 :: string + nat BatchingChannel) = Inr (started 2)"
    by (simp add: NewBatchingChannel_def None_cap_def)
  have d: "delivered (trace (started 2) ?es) = [Some [5, 6]]"
    by (simp add: model_defs)
  have b: "buffer (run (started 2) ?es) = Some [7, 8]"
    by (simp add: model_defs)
  have r: "fst (step (run (started 2) ?es) Receive) = Batch (Some [7, 8])"
    by (simp add: model_defs)
  note t = batches_in_submission_order [OF h1, of ?es "Some [7, 8]"]
  from t r have p: "pending [] (trace (started 2) ?es) = [7, 8]"
    and n: "buffer (snd (step (run (started 2) ?es) Receive)) = None"
    by (simp_all add: elems_def del: step.simps run.simps trace.simps)
  from t d b have a: "accepted (trace (started 2) ?es) = [5, 6, 7, 8]"
    by (simp add: elems_def del: step.simps run.simps trace.simps)
  from h1 d b a r p n show ?thesis by blast
qed

subsection \<open>One batch from an unbounded channel\<close>

lemma accepting_Submit:
  assumes a: "accepting s"
  shows "fst (step s (Submit v)) = Done \<and> accepting (snd (step s (Submit v))) \<and>
   buffer (snd (step s (Submit v))) = append_slice (buffer s) v"
proof -
  have "select_ready s (FromInput v)" and "\<not> input_closed s"
    using a by (auto simp: accepting_def inv_def select_ready_def loop_cond_def)
  then have st: "step s (Submit v) = (Done, iteration s (FromInput v))" by simp
  have "inv (snd (step s (Submit v)))"
    using a by (simp add: accepting_def inv_step del: step.simps)
  then have i: "inv (iteration s (FromInput v))" by (simp add: st del: step.simps)
  have "nextInput (iteration s (FromInput v))" "\<not> input_closed (iteration s (FromInput v))"
    using a by (simp_all add: accepting_def iteration_def select_case_def reevaluate_def
        after_loop_def Let_def)
  with i a have "accepting (iteration s (FromInput v))" by (simp add: accepting_def)
  then show ?thesis by (simp add: st buffer_iteration del: step.simps)
qed

lemma accepting_run:
  "accepting s \<Longrightarrow>
   trace s (map Submit vs) = map (\<lambda>v. (Submit v, Done)) vs \<and>
   accepting (run s (map Submit vs)) \<and>
   elems (buffer (run s (map Submit vs))) = elems (buffer s) @ vs"
proof (induction vs arbitrary: s)
  case Nil
  then show ?case by simp
next
  case (Cons v vs)
  note st = accepting_Submit [OF Cons.prems, of v]
  from st have "accepting (snd (step s (Submit v)))" by simp
  from Cons.IH [OF this] st show ?case by simp
qed

lemma accepted_all_Done: "accepted (map (\<lambda>v. (Submit v, Done)) vs) = vs"
  by (induction vs) simp_all

lemma delivered_all_Done: "delivered (map (\<lambda>v. (Submit v, Done)) vs) = []"
  by (induction vs) simp_all

lemma empty_no_batch:
  "inv s \<Longrightarrow> len (buffer s) = 0 \<Longrightarrow> writes es = [] \<Longrightarrow>
   delivered (trace s es) = [] \<and> accepted (trace s es) = []"
proof (induction es arbitrary: s)
  case Nil
  then show ?case by simp
next
  case (Cons e es)
  let ?t = "snd (step s e)"
  have ns: "\<forall>v. e \<noteq> Submit v" and w: "writes es = []"
    using writes_Cons [OF Cons.prems(3)] by simp_all
  have it: "inv ?t" using Cons.prems(1) by (rule inv_step)
  have nb: "\<forall>b. fst (step s e) \<noteq> Batch b"
    using Cons.prems(1,2) step_Batch [of s e] by (auto simp: inv_def select_ready_def)
  have bt: "buffer ?t = buffer s"
    using nb ns by (cases e) (auto simp: buffer_iteration)
  have "delivered (trace ?t es) = [] \<and> accepted (trace ?t es) = []"
    using it Cons.prems(2) bt w by (intro Cons.IH) simp_all
  moreover have "delivered ((e, fst (step s e)) # trace ?t es) = delivered (trace ?t es)"
    using nb by (cases "fst (step s e)") simp_all
  moreover have "accepted ((e, fst (step s e)) # trace ?t es) = accepted (trace ?t es)"
    using ns by (cases e; cases "fst (step s e)") simp_all
  ultimately show ?case by simp
qed

lemma drain_once:
  "inv s \<Longrightarrow> len (buffer s) \<noteq> 0 \<Longrightarrow> writes es = [] \<Longrightarrow> Receive \<in> set es \<Longrightarrow>
   delivered (trace s es) = [buffer s] \<and> accepted (trace s es) = []"
proof (induction es arbitrary: s)
  case Nil
  then show ?case by simp
next
  case (Cons e es)
  let ?t = "snd (step s e)"
  have ns: "\<forall>v. e \<noteq> Submit v" and w: "writes es = []"
    using writes_Cons [OF Cons.prems(3)] by simp_all
  have it: "inv ?t" using Cons.prems(1) by (rule inv_step)
  show ?case
  proof (cases "e = Receive")
    case True
    have f: "fst (step s e) = Batch (buffer s)"
      using True step_Receive_nonempty [OF Cons.prems(1,2)] by simp
    then have "len (buffer ?t) = 0" using True
      by (auto simp: buffer_iteration split: if_splits)
    then have "delivered (trace ?t es) = [] \<and> accepted (trace ?t es) = []"
      using it w by (intro empty_no_batch) simp_all
    with f True show ?thesis by simp
  next
    case False
    with Cons.prems(4) have r: "Receive \<in> set es" by simp
    note q = quiet_step [OF Cons.prems(1) ns False]
    have "delivered (trace ?t es) = [buffer ?t] \<and> accepted (trace ?t es) = []"
      using it Cons.prems(2) q w r by (intro Cons.IH) simp_all
    moreover have "delivered ((e, fst (step s e)) # trace ?t es) = delivered (trace ?t es)"
      using q by (cases "fst (step s e)") simp_all
    moreover have "accepted ((e, fst (step s e)) # trace ?t es) = accepted (trace ?t es)"
      using ns by (cases e; cases "fst (step s e)") simp_all
    ultimately show ?thesis using q by simp
  qed
qed

text \<open>
  C1, as stated, at the empty sequence of values: on an unbounded channel to which
  nothing was submitted, a reader that drains until the end of the stream gets no
  batch at all, not one.
\<close>

theorem unbounded_nothing_submitted:
  "(NewBatchingChannel Infinity :: string + nat BatchingChannel) = Inr (started Infinity) \<and>
   writes [Receive, CloseCall, SeeClosed, Receive :: nat event] = [] \<and>
   trace (started Infinity) (map Submit ([] :: nat list) @ [Receive, CloseCall, SeeClosed, Receive]) =
     [(Receive, Blocks), (CloseCall, Done), (SeeClosed, Done), (Receive, EndOfStream)] \<and>
   length (delivered (trace (started Infinity)
     (map Submit ([] :: nat list) @ [Receive, CloseCall, SeeClosed, Receive]))) \<noteq> 1"
  by (simp add: model_defs)

text \<open>
  C1, amended: a read that succeeds takes the whole buffer as one batch and leaves the
  buffer empty; and for every sequence of values that is not empty, submitted to an
  unbounded channel whose reader receives only after all the writes, one batch and no
  more is delivered, holding all the values in the order of their submission.
\<close>

theorem unbounded_single_batch:
  assumes "NewBatchingChannel Infinity = Inr s0" and "vs \<noteq> []"
    and "writes rest = []" and "Receive \<in> set rest"
  shows "(fst (step s Receive) = Batch b \<longrightarrow>
            b = buffer s \<and> buffer (snd (step s Receive)) = None) \<and>
         delivered (trace s0 (map Submit vs @ rest)) = [Some vs] \<and>
         accepted (trace s0 (map Submit vs @ rest)) = vs"
proof -
  let ?s = "run s0 (map Submit vs)"
  have a0: "accepting s0" and b0: "elems (buffer s0) = []"
    using assms(1) inv_New [OF assms(1)]
    by (auto simp: accepting_def NewBatchingChannel_def started_def split: if_splits)
  note r = accepting_run [OF a0, of vs]
  have i: "inv ?s" using r by (simp add: accepting_def)
  have e: "elems (buffer ?s) = vs" using r b0 by simp
  have bs: "buffer ?s = Some vs"
    using e assms(2) i by (cases "buffer ?s") (simp_all add: elems_def)
  then have "len (buffer ?s) \<noteq> 0" using assms(2) by (simp add: len_def)
  from drain_once [OF i this assms(3,4)] bs
  have d: "delivered (trace ?s rest) = [Some vs]" "accepted (trace ?s rest) = []" by simp_all
  have t: "trace s0 (map Submit vs @ rest) = map (\<lambda>v. (Submit v, Done)) vs @ trace ?s rest"
    using r by (simp add: trace_append)
  have p1: "fst (step s Receive) = Batch b \<longrightarrow>
      b = buffer s \<and> buffer (snd (step s Receive)) = None"
    by (auto simp: buffer_iteration split: if_splits)
  from t d p1 show ?thesis
    by (simp add: delivered_append accepted_append accepted_all_Done delivered_all_Done
        del: step.simps)
qed

theorem unbounded_single_batch_witness:
  "(NewBatchingChannel Infinity :: string + nat BatchingChannel) = Inr (started Infinity) \<and>
   [4, 5, 6 :: nat] \<noteq> [] \<and>
   writes [LenCall, Receive, CloseCall, SeeClosed, Receive :: nat event] = [] \<and>
   Receive \<in> set [LenCall, Receive, CloseCall, SeeClosed, Receive :: nat event] \<and>
   fst (step (run (started Infinity) [Submit (4 :: nat), Submit 5]) Receive) = Batch (Some [4, 5]) \<and>
   Some [4, 5] = buffer (run (started Infinity) [Submit (4 :: nat), Submit 5]) \<and>
   buffer (snd (step (run (started Infinity) [Submit (4 :: nat), Submit 5]) Receive)) = None \<and>
   delivered (trace (started Infinity)
     (map Submit [4, 5, 6 :: nat] @ [LenCall, Receive, CloseCall, SeeClosed, Receive])) =
     [Some [4, 5, 6]] \<and>
   accepted (trace (started Infinity)
     (map Submit [4, 5, 6 :: nat] @ [LenCall, Receive, CloseCall, SeeClosed, Receive])) =
     [4, 5, 6]"
proof -
  let ?rest = "[LenCall, Receive, CloseCall, SeeClosed, Receive :: nat event]"
  let ?s = "run (started Infinity) [Submit (4 :: nat), Submit 5]"
  have h1: "(NewBatchingChannel Infinity :: string + nat BatchingChannel) = Inr (started Infinity)"
    by (simp add: NewBatchingChannel_def None_cap_def Infinity_def)
  have h2: "[4, 5, 6 :: nat] \<noteq> []" by simp
  have h3: "writes ?rest = []" by simp
  have h4: "Receive \<in> set ?rest" by simp
  have r: "fst (step ?s Receive) = Batch (Some [4, 5])"
    by (simp add: model_defs)
  note t = unbounded_single_batch [OF h1 h2 h3 h4, of ?s "Some [4, 5]"]
  from t r have "Some [4, 5] = buffer ?s" "buffer (snd (step ?s Receive)) = None"
    by blast+
  with t h1 h2 h3 h4 r show ?thesis by blast
qed

section \<open>Capacity reached\<close>

lemma full_edges: "inv s \<Longrightarrow> full s \<Longrightarrow> \<not> input s \<and> output_ch s"
  by (auto simp: inv_def full_def)

lemma full_step:
  "inv s \<Longrightarrow> full s \<Longrightarrow> e \<noteq> Receive \<Longrightarrow>
   buffer (snd (step s e)) = buffer s \<and> (e = CloseCall \<or> fst (step s e) \<noteq> Done)"
  by (cases e) (auto simp: select_ready_def buffer_iteration dest: full_edges)

lemma full_run:
  "inv s \<Longrightarrow> full s \<Longrightarrow> Receive \<notin> set es \<Longrightarrow>
   buffer (run s es) = buffer s \<and> accepted (trace s es) = []"
proof (induction es arbitrary: s)
  case Nil
  then show ?case by simp
next
  case (Cons e es)
  let ?t = "snd (step s e)"
  have ne: "e \<noteq> Receive" and rest: "Receive \<notin> set es" using Cons.prems(3) by auto
  have st: "buffer ?t = buffer s" and nd: "e = CloseCall \<or> fst (step s e) \<noteq> Done"
    using full_step [OF Cons.prems(1,2) ne] by auto
  have "inv ?t" using Cons.prems(1) by (rule inv_step)
  moreover have "full ?t" using Cons.prems(2) st by (simp add: full_def)
  ultimately have ih: "buffer (run ?t es) = buffer ?t \<and> accepted (trace ?t es) = []"
    using rest by (rule Cons.IH)
  have "accepted ((e, fst (step s e)) # trace ?t es) = accepted (trace ?t es)"
    using nd by (cases e; cases "fst (step s e)") simp_all
  with ih st show ?case by simp
qed

text \<open>
  C7: when the capacity is bounded and the buffer has reached it, the loop does not
  receive from its input and offers the buffer on its output; a submit is not accepted
  and changes nothing, and as long as no reader has taken the batch no value is
  accepted and the buffer stays as it is.
\<close>

theorem at_capacity_refuses_writes:
  assumes "NewBatchingChannel N = Inr s0" and "N \<noteq> Infinity"
    and "N \<le> int (len (buffer (run s0 es)))"
  shows "\<not> select_ready (run s0 es) (FromInput v) \<and> select_ready (run s0 es) ToOutput \<and>
         fst (step (run s0 es) (Submit v)) \<noteq> Done \<and>
         snd (step (run s0 es) (Submit v)) = run s0 es \<and>
         (Receive \<notin> set es' \<longrightarrow>
            buffer (run (run s0 es) es') = buffer (run s0 es) \<and>
            accepted (trace (run s0 es) es') = [])"
proof -
  let ?s = "run s0 es"
  have i: "inv ?s" using assms(1) by (simp add: inv_run inv_New)
  have "size_cap s0 = N" using assms(1) by (rule size_cap_New)
  then have "size_cap ?s = N" by (induction es arbitrary: s0) simp_all
  then have f: "full ?s" using assms(2,3) by (simp add: full_def)
  have e: "\<not> input ?s" "output_ch ?s" using full_edges [OF i f] by simp_all
  have "\<not> select_ready ?s (FromInput v)" using e by (simp add: select_ready_def)
  moreover have "select_ready ?s ToOutput" using e by (simp add: select_ready_def loop_cond_def)
  moreover have "fst (step ?s (Submit v)) \<noteq> Done" "snd (step ?s (Submit v)) = ?s"
    using e by (simp_all add: select_ready_def)
  moreover have "Receive \<notin> set es' \<longrightarrow>
      buffer (run ?s es') = buffer ?s \<and> accepted (trace ?s es') = []"
    using full_run [OF i f] by blast
  ultimately show ?thesis by blast
qed

theorem at_capacity_refuses_writes_witness:
  "(NewBatchingChannel 2 :: string + nat BatchingChannel) = Inr (started 2) \<and>
   (2 :: int) \<noteq> Infinity \<and>
   2 \<le> int (len (buffer (run (started 2) [Submit (1 :: nat), Submit 2]))) \<and>
   Receive \<notin> set [Submit (3 :: nat), LenCall, CloseCall, SeeClosed, Submit 4] \<and>
   \<not> select_ready (run (started 2) [Submit (1 :: nat), Submit 2]) (FromInput 3) \<and>
   select_ready (run (started 2) [Submit (1 :: nat), Submit 2]) ToOutput \<and>
   fst (step (run (started 2) [Submit (1 :: nat), Submit 2]) (Submit 3)) \<noteq> Done \<and>
   snd (step (run (started 2) [Submit (1 :: nat), Submit 2]) (Submit 3)) =
     run (started 2) [Submit 1, Submit 2] \<and>
   buffer (run (run (started 2) [Submit (1 :: nat), Submit 2])
     [Submit 3, LenCall, CloseCall, SeeClosed, Submit 4]) =
     buffer (run (started 2) [Submit 1, Submit 2]) \<and>
   accepted (trace (run (started 2) [Submit (1 :: nat), Submit 2])
     [Submit 3, LenCall, CloseCall, SeeClosed, Submit 4]) = []"
proof -
  let ?es = "[Submit (1 :: nat), Submit 2]"
  let ?es' = "[Submit (3 :: nat), LenCall, CloseCall, SeeClosed, Submit 4]"
  have h1: "(NewBatchingChannel 2 :: string + nat BatchingChannel) = Inr (started 2)"
    by (simp add: NewBatchingChannel_def None_cap_def)
  have h2: "(2 :: int) \<noteq> Infinity"
    by (simp add: Infinity_def)
  have h3: "2 \<le> int (len (buffer (run (started 2) ?es)))"
    by (simp add: model_defs)
  have h4: "Receive \<notin> set ?es'" by simp
  from at_capacity_refuses_writes [OF h1 h2 h3, of 3 ?es'] h1 h2 h3 h4
  show ?thesis by blast
qed

section \<open>The length query\<close>

text \<open>
  C8: in every state the channel can reach, \<open>Len\<close> returns the number of values that
  the buffer holds at that moment, which is the number of values accepted since the
  last batch was handed to a reader (accepted and not yet delivered), and it leaves the
  whole state as it was: the buffer, the capacity and which channels are closed.
\<close>

theorem Len_observes_only:
  assumes "NewBatchingChannel sz = Inr s0"
  shows "step (run s0 es) LenCall = (Length (int (len (buffer (run s0 es)))), run s0 es) \<and>
         fst (step (run s0 es) LenCall) = Length (int (length (pending [] (trace s0 es))))"
proof -
  have i: "inv (run s0 es)" using assms by (simp add: inv_run inv_New)
  have b0: "elems (buffer s0) = []" using assms by (simp add: buffer_New)
  have st: "step (run s0 es) LenCall = (Length (int (len (buffer (run s0 es)))), run s0 es)"
    using i by (rule step_LenCall)
  have "elems (buffer (run s0 es)) = pending [] (trace s0 es)"
    using buffer_pending [of s0 es] b0 by simp
  then have "len (buffer (run s0 es)) = length (pending [] (trace s0 es))"
    by (simp add: len_elems)
  with st show ?thesis by (simp del: step.simps)
qed

theorem Len_observes_only_witness:
  "(NewBatchingChannel 3 :: string + nat BatchingChannel) = Inr (started 3) \<and>
   delivered (trace (started 3) [Submit (1 :: nat), Submit 2, Receive, Submit 3]) =
     [Some [1, 2]] \<and>
   pending [] (trace (started 3) [Submit (1 :: nat), Submit 2, Receive, Submit 3]) = [3] \<and>
   len (buffer (run (started 3) [Submit (1 :: nat), Submit 2, Receive, Submit 3])) = 1 \<and>
   step (run (started 3) [Submit (1 :: nat), Submit 2, Receive, Submit 3]) LenCall =
     (Length 1, run (started 3) [Submit 1, Submit 2, Receive, Submit 3])"
proof -
  let ?es = "[Submit (1 :: nat), Submit 2, Receive, Submit 3]"
  have h1: "(NewBatchingChannel 3 :: string + nat BatchingChannel) = Inr (started 3)"
    by (simp add: NewBatchingChannel_def None_cap_def)
  have d: "delivered (trace (started 3) ?es) = [Some [1, 2]]"
    by (simp add: model_defs)
  have p: "pending [] (trace (started 3) ?es) = [3]"
    by (simp add: model_defs)
  note t = Len_observes_only [OF h1, of ?es]
  from t have st0: "step (run (started 3) ?es) LenCall =
      (Length (int (len (buffer (run (started 3) ?es)))), run (started 3) ?es)"
    and f: "fst (step (run (started 3) ?es) LenCall) =
      Length (int (length (pending [] (trace (started 3) ?es))))"
    by blast+
  have "fst (step (run (started 3) ?es) LenCall) =
      Length (int (len (buffer (run (started 3) ?es))))"
    by (simp only: st0 fst_conv)
  with f have "int (len (buffer (run (started 3) ?es))) =
      int (length (pending [] (trace (started 3) ?es)))"
    by (simp only: outcome.inject)
  then have l: "len (buffer (run (started 3) ?es)) = 1"
    by (simp only: p) simp
  from st0 have st: "step (run (started 3) ?es) LenCall = (Length 1, run (started 3) ?es)"
    by (simp only: l) simp
  from h1 d p l st show ?thesis by blast
qed

lemma trace_replicate_LenCall:
  "inv s \<Longrightarrow> trace s (replicate n LenCall) = replicate n (LenCall, Length (int (len (buffer s))))"
  by (induction n) (simp_all add: step_LenCall del: step.simps)

lemma run_replicate_LenCall: "inv s \<Longrightarrow> run s (replicate n LenCall) = s"
  by (induction n) (simp_all add: step_LenCall del: step.simps)

text \<open>
  C10: once the loop has ended (the channel is closed and drained), the length channel
  is closed and every \<open>Len\<close> returns 0 without blocking and without changing the
  state; an open channel whose buffer is empty answers \<open>Len\<close> with the same value.
\<close>

theorem Len_after_termination:
  assumes "NewBatchingChannel sz = Inr s0" and "\<not> loop_cond (run s0 es)"
  shows "length_closed (run s0 es) \<and> input_closed (run s0 es) \<and>
         len (buffer (run s0 es)) = 0 \<and>
         trace (run s0 es) (replicate n LenCall) = replicate n (LenCall, Length 0) \<and>
         run (run s0 es) (replicate n LenCall) = run s0 es \<and>
         (loop_cond (run s0 es') \<and> len (buffer (run s0 es')) = 0 \<longrightarrow>
            fst (step (run s0 es') LenCall) = fst (step (run s0 es) LenCall))"
proof -
  let ?s = "run s0 es"
  have i0: "inv s0" using assms(1) by (rule inv_New)
  have i: "inv ?s" using i0 by (rule inv_run)
  have i': "inv (run s0 es')" using i0 by (rule inv_run)
  have z: "len (buffer ?s) = 0" and lc: "length_closed ?s" and ic: "input_closed ?s"
    using i assms(2) by (auto simp: inv_def loop_cond_def)
  have t: "trace ?s (replicate n LenCall) = replicate n (LenCall, Length 0)"
    using trace_replicate_LenCall [OF i] z by simp
  have r: "run ?s (replicate n LenCall) = ?s"
    using i by (rule run_replicate_LenCall)
  have "len (buffer (run s0 es')) = 0 \<longrightarrow>
      fst (step (run s0 es') LenCall) = fst (step ?s LenCall)"
    using z by (simp add: step_LenCall [OF i] step_LenCall [OF i'] del: step.simps)
  with lc ic z t r show ?thesis by blast
qed

theorem Len_after_termination_witness:
  "(NewBatchingChannel 2 :: string + nat BatchingChannel) = Inr (started 2) \<and>
   \<not> loop_cond (run (started 2) [Submit (1 :: nat), CloseCall, Receive, SeeClosed]) \<and>
   loop_cond (run (started 2) ([] :: nat event list)) \<and>
   len (buffer (run (started 2) ([] :: nat event list))) = 0 \<and>
   length_closed (run (started 2) [Submit (1 :: nat), CloseCall, Receive, SeeClosed]) \<and>
   trace (run (started 2) [Submit (1 :: nat), CloseCall, Receive, SeeClosed])
     (replicate 3 LenCall) = replicate 3 (LenCall, Length 0) \<and>
   fst (step (run (started 2) ([] :: nat event list)) LenCall) =
     fst (step (run (started 2) [Submit (1 :: nat), CloseCall, Receive, SeeClosed]) LenCall)"
proof -
  let ?es = "[Submit (1 :: nat), CloseCall, Receive, SeeClosed]"
  have h1: "(NewBatchingChannel 2 :: string + nat BatchingChannel) = Inr (started 2)"
    by (simp add: NewBatchingChannel_def None_cap_def)
  have h2: "\<not> loop_cond (run (started 2) ?es)"
    by (simp add: model_defs)
  have h3: "loop_cond (run (started 2) ([] :: nat event list))"
    "len (buffer (run (started 2) ([] :: nat event list))) = 0"
    by (simp_all add: model_defs)
  from Len_after_termination [OF h1 h2, of 3 "[]"] h1 h2 h3 show ?thesis by blast
qed

section \<open>Closing\<close>

lemma input_closed_step: "input_closed s \<Longrightarrow> input_closed (snd (step s e))"
  by (cases e)
     (simp_all add: iteration_def reevaluate_def select_case_def after_loop_def Let_def
        split: comm.splits)

lemma input_closed_run: "input_closed s \<Longrightarrow> input_closed (run s es)"
  by (induction es arbitrary: s) (simp_all add: input_closed_step)

text \<open>
  C9: after \<open>Close\<close> has been called, at any later moment, a submit panics in the
  goroutine that submits (send on closed channel) and leaves the state of the
  channel and of its loop as it was: nothing is appended to the buffer.
\<close>

theorem Submit_after_Close:
  "step (run s (es1 @ CloseCall # es2)) (Submit v) =
     (Panicked ''send on closed channel'', run s (es1 @ CloseCall # es2))"
proof -
  have "input_closed (snd (step (run s es1) CloseCall))" by simp
  then have "input_closed (run (snd (step (run s es1) CloseCall)) es2)"
    by (rule input_closed_run)
  then have "input_closed (run s (es1 @ CloseCall # es2))"
    by (simp add: run_append del: step.simps)
  then show ?thesis by simp
qed

theorem Submit_after_Close_witness:
  "step (run (started 2) ([Submit (1 :: nat)] @ CloseCall # [Receive])) (Submit 9) =
     (Panicked ''send on closed channel'',
      run (started 2) ([Submit 1] @ CloseCall # [Receive])) \<and>
   buffer (run (started 2) ([Submit (1 :: nat)] @ CloseCall # [Receive])) = None"
proof -
  have "buffer (run (started 2) ([Submit (1 :: nat)] @ CloseCall # [Receive])) = None"
    by (simp add: model_defs)
  with Submit_after_Close [of "started 2" "[Submit (1 :: nat)]" "[Receive]" 9]
  show ?thesis by blast
qed

lemma terminated_iff: "inv s \<Longrightarrow> (\<not> loop_cond s) = (\<not> nextInput s \<and> len (buffer s) = 0)"
  by (auto simp: inv_def loop_cond_def)

lemma EndOfStream_drained:
  "inv s \<Longrightarrow> fst (step s Receive) = EndOfStream \<Longrightarrow> input_closed s \<and> len (buffer s) = 0"
  by (auto simp: inv_def loop_cond_def split: if_splits)

lemma SeeClosed_terminates:
  "inv s \<Longrightarrow> input_closed s \<Longrightarrow> len (buffer s) = 0 \<Longrightarrow> loop_cond s \<Longrightarrow>
   fst (step s SeeClosed) = Done \<and> \<not> loop_cond (snd (step s SeeClosed))"
  by (auto simp: inv_def loop_cond_def select_ready_def iteration_def select_case_def
        reevaluate_def after_loop_def Let_def)

lemma drain_reaches_end:
  "inv s \<Longrightarrow> input_closed s \<Longrightarrow>
   fst (step (run s [Receive, SeeClosed]) Receive) = EndOfStream"
  by (auto simp: inv_def loop_cond_def select_ready_def iteration_def select_case_def
        reevaluate_def after_loop_def Let_def)

text \<open>
  C5: in every state the channel can reach: values still in the buffer after
  \<open>Close\<close> are handed to the next reader as a batch; the loop has ended exactly
  when it has seen its input closed and the buffer is empty (it sees the input closed
  only after \<open>Close\<close>, and once the input is closed and the buffer empty, its next
  step is to see that and end); the output and the length channel are closed exactly
  when the loop has ended; so a receive reports the end of the stream only when the
  channel is closed and the buffer drained.  The loop seeing its input closed leaves
  the buffer as it is, and when a receive reports the end of the stream, every value
  that was accepted has been delivered in a batch, in order.  Once \<open>Close\<close> has been
  called, one receive, the loop seeing the closure, and the next receive reports the
  end of the stream.
\<close>

theorem close_drains_then_ends:
  assumes "NewBatchingChannel sz = Inr s0"
  shows "(input_closed (run s0 es) \<and> len (buffer (run s0 es)) \<noteq> 0 \<longrightarrow>
            fst (step (run s0 es) Receive) = Batch (buffer (run s0 es))) \<and>
         ((\<not> loop_cond (run s0 es)) =
            (\<not> nextInput (run s0 es) \<and> len (buffer (run s0 es)) = 0)) \<and>
         (\<not> nextInput (run s0 es) \<longrightarrow> input_closed (run s0 es)) \<and>
         (input_closed (run s0 es) \<and> len (buffer (run s0 es)) = 0 \<and> loop_cond (run s0 es) \<longrightarrow>
            fst (step (run s0 es) SeeClosed) = Done \<and>
            \<not> loop_cond (snd (step (run s0 es) SeeClosed))) \<and>
         output_closed (run s0 es) = (\<not> loop_cond (run s0 es)) \<and>
         length_closed (run s0 es) = (\<not> loop_cond (run s0 es)) \<and>
         (fst (step (run s0 es) Receive) = EndOfStream \<longrightarrow>
            input_closed (run s0 es) \<and> len (buffer (run s0 es)) = 0) \<and>
         buffer (snd (step (run s0 es) SeeClosed)) = buffer (run s0 es) \<and>
         (fst (step (run s0 es) Receive) = EndOfStream \<longrightarrow>
            concat (map elems (delivered (trace s0 es))) = accepted (trace s0 es)) \<and>
         (input_closed (run s0 es) \<longrightarrow>
            fst (step (run s0 (es @ [Receive, SeeClosed])) Receive) = EndOfStream \<and>
            concat (map elems (delivered (trace s0 (es @ [Receive, SeeClosed])))) =
              accepted (trace s0 (es @ [Receive, SeeClosed])))"
proof -
  let ?s = "run s0 es"
  have i0: "inv s0" using assms by (rule inv_New)
  have i: "inv ?s" using i0 by (rule inv_run)
  have b0: "elems (buffer s0) = []" using assms by (simp add: buffer_New)
  have part: "\<And>es. concat (map elems (delivered (trace s0 es))) @ elems (buffer (run s0 es)) =
      accepted (trace s0 es)"
    using batches_partition [of s0] b0 by simp
  have eos: "\<And>es. fst (step (run s0 es) Receive) = EndOfStream \<Longrightarrow>
      concat (map elems (delivered (trace s0 es))) = accepted (trace s0 es)"
  proof -
    fix es
    assume "fst (step (run s0 es) Receive) = EndOfStream"
    then have "len (buffer (run s0 es)) = 0"
      using EndOfStream_drained [OF inv_run [OF i0, of es]] by blast
    then have "elems (buffer (run s0 es)) = []" by (simp add: len_elems)
    with part [of es] show "concat (map elems (delivered (trace s0 es))) = accepted (trace s0 es)"
      by simp
  qed
  have a: "input_closed ?s \<and> len (buffer ?s) \<noteq> 0 \<longrightarrow> fst (step ?s Receive) = Batch (buffer ?s)"
    using step_Receive_nonempty [OF i] by blast
  have b: "(\<not> loop_cond ?s) = (\<not> nextInput ?s \<and> len (buffer ?s) = 0)"
    using i by (rule terminated_iff)
  have c: "\<not> nextInput ?s \<longrightarrow> input_closed ?s"
    using i by (simp add: inv_def)
  have d: "input_closed ?s \<and> len (buffer ?s) = 0 \<and> loop_cond ?s \<longrightarrow>
            fst (step ?s SeeClosed) = Done \<and> \<not> loop_cond (snd (step ?s SeeClosed))"
    using SeeClosed_terminates [OF i] by blast
  have e: "output_closed ?s = (\<not> loop_cond ?s)" "length_closed ?s = (\<not> loop_cond ?s)"
    using i by (simp_all add: inv_def)
  have f: "fst (step ?s Receive) = EndOfStream \<longrightarrow> input_closed ?s \<and> len (buffer ?s) = 0"
    using EndOfStream_drained [OF i] by blast
  have g: "buffer (snd (step ?s SeeClosed)) = buffer ?s"
    by (simp add: buffer_iteration)
  have h: "fst (step ?s Receive) = EndOfStream \<longrightarrow>
      concat (map elems (delivered (trace s0 es))) = accepted (trace s0 es)"
    using eos [of es] by blast
  have k: "input_closed ?s \<longrightarrow>
      fst (step (run s0 (es @ [Receive, SeeClosed])) Receive) = EndOfStream"
    using drain_reaches_end [OF i] by (simp add: run_append del: step.simps run.simps)
  have l: "input_closed ?s \<longrightarrow>
      concat (map elems (delivered (trace s0 (es @ [Receive, SeeClosed])))) =
        accepted (trace s0 (es @ [Receive, SeeClosed]))"
    using k eos [of "es @ [Receive, SeeClosed]"] by blast
  from a b c d e f g h k l show ?thesis by blast
qed

theorem close_drains_then_ends_witness:
  "(NewBatchingChannel 2 :: string + nat BatchingChannel) = Inr (started 2) \<and>
   input_closed (run (started 2) [Submit (1 :: nat), CloseCall]) \<and>
   len (buffer (run (started 2) [Submit (1 :: nat), CloseCall])) \<noteq> 0 \<and>
   fst (step (run (started 2) [Submit (1 :: nat), CloseCall]) Receive) = Batch (Some [1]) \<and>
   input_closed (run (started 2) [Submit (1 :: nat), CloseCall, Receive]) \<and>
   len (buffer (run (started 2) [Submit (1 :: nat), CloseCall, Receive])) = 0 \<and>
   loop_cond (run (started 2) [Submit (1 :: nat), CloseCall, Receive]) \<and>
   fst (step (run (started 2) [Submit (1 :: nat), CloseCall, Receive]) SeeClosed) = Done \<and>
   \<not> loop_cond (snd (step (run (started 2) [Submit (1 :: nat), CloseCall, Receive]) SeeClosed)) \<and>
   \<not> nextInput (run (started 2) [Submit (1 :: nat), CloseCall, Receive, SeeClosed]) \<and>
   fst (step (run (started 2) [Submit (1 :: nat), CloseCall, Receive, SeeClosed]) Receive) =
     EndOfStream \<and>
   output_closed (run (started 2) [Submit (1 :: nat), CloseCall, Receive, SeeClosed]) \<and>
   length_closed (run (started 2) [Submit (1 :: nat), CloseCall, Receive, SeeClosed]) \<and>
   input_closed (run (started 2) [Submit (1 :: nat), CloseCall, Receive, SeeClosed]) \<and>
   len (buffer (run (started 2) [Submit (1 :: nat), CloseCall, Receive, SeeClosed])) = 0 \<and>
   accepted (trace (started 2) [Submit (1 :: nat), CloseCall, Receive, SeeClosed]) = [1] \<and>
   concat (map elems (delivered (trace (started 2)
     [Submit (1 :: nat), CloseCall, Receive, SeeClosed]))) = [1] \<and>
   input_closed (run (started 2) [Submit (1 :: nat), Submit 2, CloseCall, SeeClosed]) \<and>
   buffer (run (started 2) [Submit (1 :: nat), Submit 2, CloseCall, SeeClosed]) = Some [1, 2] \<and>
   fst (step (run (started 2)
     ([Submit (1 :: nat), Submit 2, CloseCall, SeeClosed] @ [Receive, SeeClosed])) Receive) =
     EndOfStream \<and>
   accepted (trace (started 2)
     ([Submit (1 :: nat), Submit 2, CloseCall, SeeClosed] @ [Receive, SeeClosed])) = [1, 2] \<and>
   concat (map elems (delivered (trace (started 2)
     ([Submit (1 :: nat), Submit 2, CloseCall, SeeClosed] @ [Receive, SeeClosed])))) = [1, 2]"
proof -
  let ?e1 = "[Submit (1 :: nat), CloseCall]"
  let ?e2 = "[Submit (1 :: nat), CloseCall, Receive]"
  let ?e3 = "[Submit (1 :: nat), CloseCall, Receive, SeeClosed]"
  let ?e4 = "[Submit (1 :: nat), Submit 2, CloseCall, SeeClosed]"
  have h: "(NewBatchingChannel 2 :: string + nat BatchingChannel) = Inr (started 2)"
    by (simp add: NewBatchingChannel_def None_cap_def)
  have a1: "input_closed (run (started 2) ?e1)" "len (buffer (run (started 2) ?e1)) \<noteq> 0"
    "buffer (run (started 2) ?e1) = Some [1]"
    by (simp_all add: model_defs)
  have a2: "input_closed (run (started 2) ?e2)" "len (buffer (run (started 2) ?e2)) = 0"
    "loop_cond (run (started 2) ?e2)"
    by (simp_all add: model_defs)
  have a3: "\<not> nextInput (run (started 2) ?e3)"
    "fst (step (run (started 2) ?e3) Receive) = EndOfStream"
    by (simp_all add: model_defs)
  have a3': "accepted (trace (started 2) ?e3) = [1]"
    by (simp add: model_defs)
  have a4: "input_closed (run (started 2) ?e4)" "buffer (run (started 2) ?e4) = Some [1, 2]"
    by (simp_all add: model_defs)
  have a4': "accepted (trace (started 2) (?e4 @ [Receive, SeeClosed])) = [1, 2]"
    by (simp add: model_defs)
  note t1 = close_drains_then_ends [OF h, of ?e1]
  note t2 = close_drains_then_ends [OF h, of ?e2]
  note t3 = close_drains_then_ends [OF h, of ?e3]
  note t4 = close_drains_then_ends [OF h, of ?e4]
  from t1 a1 have c1: "fst (step (run (started 2) ?e1) Receive) = Batch (Some [1])"
    by metis
  from t2 a2 have c2: "fst (step (run (started 2) ?e2) SeeClosed) = Done"
    "\<not> loop_cond (snd (step (run (started 2) ?e2) SeeClosed))"
    by blast+
  from t3 a3 have c3: "output_closed (run (started 2) ?e3)" "length_closed (run (started 2) ?e3)"
    "input_closed (run (started 2) ?e3)" "len (buffer (run (started 2) ?e3)) = 0"
    by blast+
  from t3 a3 have "concat (map elems (delivered (trace (started 2) ?e3))) =
      accepted (trace (started 2) ?e3)"
    by blast
  with a3' have c3': "concat (map elems (delivered (trace (started 2) ?e3))) = [1]"
    by simp
  from t4 a4 have c4: "fst (step (run (started 2) (?e4 @ [Receive, SeeClosed])) Receive) =
      EndOfStream"
    and "concat (map elems (delivered (trace (started 2) (?e4 @ [Receive, SeeClosed])))) =
      accepted (trace (started 2) (?e4 @ [Receive, SeeClosed]))"
    by blast+
  with a4' have c4': "concat (map elems (delivered (trace (started 2)
      (?e4 @ [Receive, SeeClosed])))) = [1, 2]"
    by simp
  from h a1 a2 a3 a3' a4 a4' c1 c2 c3 c3' c4 c4' show ?thesis by blast
qed

end
